theory Spec2Isabelle
  imports Complex_Main
begin

section \<open>JavaScript numbers\<close>

text \<open>
  The calculator computes on JavaScript \<open>number\<close>s, which are IEEE-754 binary64 values.
  A value is NaN, an infinity with its sign, or a finite value with its sign and its
  magnitude (so both zeros exist); the sign is \<open>True\<close> for negative. The magnitude of
  a finite value is a non-negative rational that binary64 represents exactly: every
  operation below rounds its exact result to such a value.
\<close>

datatype number = NaN | Infinity bool | Fin bool rat

text \<open>The number of binary digits of a positive integer.\<close>

function bits :: "int \<Rightarrow> int" where
  "bits n = (if n \<le> 0 then 0 else 1 + bits (n div 2))"
  by pat_completeness auto
termination
  by (relation "measure nat") auto

declare bits.simps [simp del]

definition pow2 :: "int \<Rightarrow> rat" where
  "pow2 e = (if 0 \<le> e then of_int (2 ^ nat e) else 1 / of_int (2 ^ nat (- e)))"

text \<open>For \<open>q > 0\<close>, the exponent \<open>e\<close> with \<open>2 ^ e \<le> q < 2 ^ (e + 1)\<close>.\<close>

definition ilog2 :: "rat \<Rightarrow> int" where
  "ilog2 q = (case quotient_of q of (a, b) \<Rightarrow>
     let d = bits a - bits b in if pow2 d \<le> q then d else d - 1)"

definition round_half_even :: "rat \<Rightarrow> int" where
  "round_half_even x = (let f = \<lfloor>x\<rfloor>; r = x - of_int f in
     if r < 1 / 2 then f else if 1 / 2 < r then f + 1 else if even f then f else f + 1)"

text \<open>
  Rounding of an exact magnitude \<open>q \<ge> 0\<close> to binary64, to nearest with ties to even:
  53 significant bits, exponents from \<open>-1022\<close> (below which values are subnormal, on
  the grid of \<open>2 ^ -1074\<close>) to \<open>1023\<close>; a result of \<open>2 ^ 1024\<close> or more is infinite.
\<close>

definition rnd :: "bool \<Rightarrow> rat \<Rightarrow> number" where
  "rnd s q = (if q = 0 then Fin s 0 else
     let e = max (ilog2 q) (- 1022) in
     if 1023 < e then Infinity s else
     let m = round_half_even (q / pow2 (e - 52)) in
     if e = 1023 \<and> m = 9007199254740992 then Infinity s
     else Fin s (of_int m * pow2 (e - 52)))"

definition signed :: "bool \<Rightarrow> rat \<Rightarrow> rat" where
  "signed s m = (if s then - m else m)"

fun fadd :: "number \<Rightarrow> number \<Rightarrow> number" where
  "fadd NaN y = NaN"
| "fadd x NaN = NaN"
| "fadd (Infinity s) (Infinity t) = (if s = t then Infinity s else NaN)"
| "fadd (Infinity s) (Fin t n) = Infinity s"
| "fadd (Fin s m) (Infinity t) = Infinity t"
| "fadd (Fin s m) (Fin t n) =
     (let q = signed s m + signed t n in
      if q = 0 then Fin (s \<and> t) 0 else rnd (q < 0) \<bar>q\<bar>)"

fun fneg :: "number \<Rightarrow> number" where
  "fneg NaN = NaN"
| "fneg (Infinity s) = Infinity (\<not> s)"
| "fneg (Fin s m) = Fin (\<not> s) m"

definition fsub :: "number \<Rightarrow> number \<Rightarrow> number" where
  "fsub x y = fadd x (fneg y)"

fun fmul :: "number \<Rightarrow> number \<Rightarrow> number" where
  "fmul NaN y = NaN"
| "fmul x NaN = NaN"
| "fmul (Infinity s) (Infinity t) = Infinity (s \<noteq> t)"
| "fmul (Infinity s) (Fin t n) = (if n = 0 then NaN else Infinity (s \<noteq> t))"
| "fmul (Fin s m) (Infinity t) = (if m = 0 then NaN else Infinity (s \<noteq> t))"
| "fmul (Fin s m) (Fin t n) = rnd (s \<noteq> t) (m * n)"

fun fdiv :: "number \<Rightarrow> number \<Rightarrow> number" where
  "fdiv NaN y = NaN"
| "fdiv x NaN = NaN"
| "fdiv (Infinity s) (Infinity t) = NaN"
| "fdiv (Infinity s) (Fin t n) = Infinity (s \<noteq> t)"
| "fdiv (Fin s m) (Infinity t) = Fin (s \<noteq> t) 0"
| "fdiv (Fin s m) (Fin t n) =
     (if n = 0 then (if m = 0 then NaN else Infinity (s \<noteq> t))
      else rnd (s \<noteq> t) (m / n))"

text \<open>The comparisons \<open><\<close> and \<open><=\<close>: false when an operand is NaN; the zeros are equal.\<close>

fun flt :: "number \<Rightarrow> number \<Rightarrow> bool" where
  "flt NaN y = False"
| "flt x NaN = False"
| "flt (Infinity s) (Infinity t) = (s \<and> \<not> t)"
| "flt (Infinity s) (Fin t n) = s"
| "flt (Fin s m) (Infinity t) = (\<not> t)"
| "flt (Fin s m) (Fin t n) = (signed s m < signed t n)"

fun fle :: "number \<Rightarrow> number \<Rightarrow> bool" where
  "fle NaN y = False"
| "fle x NaN = False"
| "fle (Infinity s) (Infinity t) = (s \<or> \<not> t)"
| "fle (Infinity s) (Fin t n) = s"
| "fle (Fin s m) (Infinity t) = (\<not> t)"
| "fle (Fin s m) (Fin t n) = (signed s m \<le> signed t n)"

definition isNaN :: "number \<Rightarrow> bool" where
  "isNaN x = (x = NaN)"

subsection \<open>Strings to numbers\<close>

definition isDigit :: "char \<Rightarrow> bool" where
  "isDigit c = (c \<in> set ''0123456789'')"

definition digitVal :: "char \<Rightarrow> int" where
  "digitVal c = of_char c - 48"

definition intOfDigits :: "string \<Rightarrow> int" where
  "intOfDigits ds = foldl (\<lambda>n c. 10 * n + digitVal c) 0 ds"

text \<open>
  \<open>Number(t)\<close> on the strings the tokenizer's regular expression can match. A decimal
  literal \<open>\d+(\.\d+)?\<close> converts to the binary64 value nearest to its decimal value.
  Each of the one-character tokens \<open>( ) + - * /\<close> is not a numeric literal and converts
  to NaN, which is the branch every other string takes here too: \<open>Number\<close> is applied
  to tokens only (lemmas \<open>tokens_shape\<close> and \<open>token_is_number_iff\<close>), so the rest of
  JavaScript's numeric grammar (signs, exponents, blanks, hexadecimal) is never reached.
  The conversion rounds the decimal value correctly, as the engines do.
\<close>

definition Number :: "string \<Rightarrow> number" where
  "Number t = (let ip = takeWhile isDigit t; rest = dropWhile isDigit t in
     if ip = [] then NaN
     else (case rest of
        [] \<Rightarrow> rnd False (of_int (intOfDigits ip))
      | c # fp \<Rightarrow>
          if c = CHR ''.'' \<and> fp \<noteq> [] \<and> list_all isDigit fp
          then rnd False (of_int (intOfDigits (ip @ fp)) / of_int (10 ^ length fp))
          else NaN))"

subsection \<open>Numbers to strings\<close>

definition digitChar :: "int \<Rightarrow> char" where
  "digitChar d = char_of (48 + d)"

function digits :: "int \<Rightarrow> string" where
  "digits n = (if n < 10 then [digitChar n] else digits (n div 10) @ [digitChar (n mod 10)])"
  by pat_completeness auto
termination
  by (relation "measure nat") auto

declare digits.simps [simp del]

definition pow10 :: "int \<Rightarrow> rat" where
  "pow10 e = (if 0 \<le> e then of_int (10 ^ nat e) else 1 / of_int (10 ^ nat (- e)))"

text \<open>For \<open>q > 0\<close>, the exponent \<open>e\<close> with \<open>10 ^ e \<le> q < 10 ^ (e + 1)\<close>.\<close>

definition ilog10 :: "rat \<Rightarrow> int" where
  "ilog10 q = (case quotient_of q of (a, b) \<Rightarrow>
     let d = int (length (digits a)) - int (length (digits b))
     in if pow10 d \<le> q then d else d - 1)"

text \<open>
  \<open>Number::toString\<close> of a finite \<open>x > 0\<close> takes integers \<open>n\<close>, \<open>k\<close>, \<open>s\<close> with
  \<open>k \<ge> 1\<close>, \<open>10 ^ (k - 1) \<le> s < 10 ^ k\<close>, \<open>s * 10 ^ (n - k)\<close> rounding to \<open>x\<close>, and
  \<open>k\<close> as small as possible; of several \<open>s\<close> the one nearest to \<open>x\<close>. For a given \<open>k\<close>
  the only candidates are the two \<open>k\<close>-digit decimals next to \<open>x\<close>, below and above.
\<close>

definition cand :: "rat \<Rightarrow> int \<Rightarrow> nat \<Rightarrow> (int \<times> int) option" where
  "cand x n0 k = (let scale = pow10 (n0 - int k); lo = \<lfloor>x / scale\<rfloor>; hi = lo + 1;
       vlo = of_int lo * scale; vhi = of_int hi * scale;
       oklo = (rnd False vlo = Fin False x); okhi = (rnd False vhi = Fin False x)
     in if oklo \<and> (\<not> okhi \<or> x - vlo < vhi - x \<or> (x - vlo = vhi - x \<and> even lo))
        then Some (lo, n0)
        else if okhi then Some (if hi = 10 ^ k then (10 ^ (k - 1), n0 + 1) else (hi, n0))
        else None)"

text \<open>Seventeen significant digits identify every binary64 value, so the search ends.\<close>

fun search :: "rat \<Rightarrow> int \<Rightarrow> nat \<Rightarrow> nat \<Rightarrow> (int \<times> int \<times> nat) option" where
  "search x n0 k 0 = None"
| "search x n0 k (Suc fuel) = (case cand x n0 k of
     Some (s, n) \<Rightarrow> Some (s, n, k)
   | None \<Rightarrow> search x n0 (Suc k) fuel)"

definition fmt :: "int \<Rightarrow> int \<Rightarrow> nat \<Rightarrow> string" where
  "fmt s n k = (let ds = digits s in
     if int k \<le> n \<and> n \<le> 21 then ds @ replicate (nat (n - int k)) CHR ''0''
     else if 0 < n \<and> n \<le> 21 then take (nat n) ds @ ''.'' @ drop (nat n) ds
     else if - 6 < n \<and> n \<le> 0 then ''0.'' @ replicate (nat (- n)) CHR ''0'' @ ds
     else let e = n - 1; es = (if e < 0 then ''-'' else ''+'') @ digits \<bar>e\<bar> in
       if k = 1 then ds @ ''e'' @ es else hd ds # ''.'' @ tl ds @ ''e'' @ es)"

definition toString :: "number \<Rightarrow> string" where
  "toString x = (case x of
       NaN \<Rightarrow> ''NaN''
     | Infinity s \<Rightarrow> (if s then ''-Infinity'' else ''Infinity'')
     | Fin s m \<Rightarrow>
         if m = 0 then ''0''
         else (if s then ''-'' else []) @
           (case search m (ilog10 m + 1) 1 17 of
              Some (d, n, k) \<Rightarrow> fmt d n k
            | None \<Rightarrow> []))"

subsection \<open>Values that may be undefined\<close>

text \<open>
  \<open>calc.pop()\<close> on an empty array and \<open>calc[0]\<close> of an empty array are \<open>undefined\<close>.
  In arithmetic \<open>undefined\<close> converts to NaN; in a template literal it is the text
  \<open>undefined\<close>.
\<close>

datatype jsval = Undefined | Num number

fun ToNumber :: "jsval \<Rightarrow> number" where
  "ToNumber Undefined = NaN"
| "ToNumber (Num x) = x"

fun ToString :: "jsval \<Rightarrow> string" where
  "ToString Undefined = ''undefined''"
| "ToString (Num x) = toString x"

section \<open>The expression evaluator\<close>

text \<open>
  \<open>calculateExpressionWithSteps\<close> of \<open>app/(tabs)/index.tsx\<close>. It throws
  \<open>Error("Invalid expression")\<close> or \<open>Error("Invalid")\<close>, or returns
  \<open>{ result, steps }\<close>. Arrays are lists in the order of their indices: \<open>push\<close>
  appends, \<open>pop\<close> removes the last element and does nothing to an empty array,
  \<open>stack[stack.length - 1]\<close> is the last element.
\<close>

datatype error = Error string

record outcome =
  result :: jsval
  steps :: "string list"

text \<open>\<open>/^[0-9+\-*/.() ]+$/.test(expr)\<close>: one or more characters, all of the class.\<close>

definition allowed :: "char \<Rightarrow> bool" where
  "allowed c = (c \<in> set ''0123456789+-*/.() '')"

definition test :: "string \<Rightarrow> bool" where
  "test expr = (expr \<noteq> [] \<and> list_all allowed expr)"

text \<open>
  \<open>expr.match(/\d+(\.\d+)?|[()+\-*/]/g)\<close>: the matches from left to right. At a digit
  the match takes all the digits that follow and then, if a dot and at least one digit
  come next, the dot and all the digits after it. Any other character that is not one
  of \<open>( ) + - * /\<close> starts no match and is skipped. The empty list stands for the
  \<open>null\<close> that \<open>match\<close> returns when nothing matches.
\<close>

function tokens :: "string \<Rightarrow> string list" where
  "tokens [] = []"
| "tokens (c # cs) =
     (if isDigit c then
        (case dropWhile isDigit cs of
           [] \<Rightarrow> [c # takeWhile isDigit cs]
         | d # r \<Rightarrow>
             if d = CHR ''.'' \<and> takeWhile isDigit r \<noteq> []
             then (c # takeWhile isDigit cs @ ''.'' @ takeWhile isDigit r)
                    # tokens (dropWhile isDigit r)
             else (c # takeWhile isDigit cs) # tokens (d # r))
      else if c \<in> set ''()+-*/'' then [c] # tokens cs
      else tokens cs)"
  by pat_completeness auto
termination
proof (relation "measure length", goal_cases)
  case 1
  show ?case by simp
next
  case (2 c cs d r)
  have "length (dropWhile isDigit r) \<le> length r"
    by (rule length_dropWhile_le)
  moreover have "length (dropWhile isDigit cs) \<le> length cs"
    by (rule length_dropWhile_le)
  ultimately show ?case using 2 by simp
next
  case (3 c cs d r)
  have "length (dropWhile isDigit cs) \<le> length cs"
    by (rule length_dropWhile_le)
  then show ?case using 3 by simp
next
  case (4 c cs)
  show ?case by simp
next
  case (5 c cs)
  show ?case by simp
qed

declare tokens.simps(2) [simp del]

text \<open>\<open>const ops = { "+": 1, "-": 1, "*": 2, "/": 2 }\<close>\<close>

definition ops :: "string \<rightharpoonup> nat" where
  "ops = [''+'' \<mapsto> 1, ''-'' \<mapsto> 1, ''*'' \<mapsto> 2, ''/'' \<mapsto> 2]"

text \<open>\<open>ops[x] >= ops[t]\<close>: a missing key reads as \<open>undefined\<close>, which compares false.\<close>

fun js_ge :: "nat option \<Rightarrow> nat option \<Rightarrow> bool" where
  "js_ge (Some a) (Some b) = (b \<le> a)"
| "js_ge x y = False"

text \<open>The elements of \<open>output\<close>: numbers and the strings popped off the stack.\<close>

datatype item = N number | S string

text \<open>\<open>while (stack.length && ops[stack[stack.length - 1]] >= ops[t]) output.push(stack.pop())\<close>\<close>

function popOps :: "string \<Rightarrow> string list \<Rightarrow> item list \<Rightarrow> string list \<times> item list" where
  "popOps t stack output =
     (if stack \<noteq> [] \<and> js_ge (ops (last stack)) (ops t)
      then popOps t (butlast stack) (output @ [S (last stack)])
      else (stack, output))"
  by pat_completeness auto
termination
  by (relation "measure (\<lambda>(t, stack, output). length stack)") auto

declare popOps.simps [simp del]

text \<open>\<open>while (stack.length && stack[stack.length - 1] !== "(") output.push(stack.pop())\<close>\<close>

function popToParen :: "string list \<Rightarrow> item list \<Rightarrow> string list \<times> item list" where
  "popToParen stack output =
     (if stack \<noteq> [] \<and> last stack \<noteq> ''(''
      then popToParen (butlast stack) (output @ [S (last stack)])
      else (stack, output))"
  by pat_completeness auto
termination
  by (relation "measure (\<lambda>(stack, output). length stack)") auto

declare popToParen.simps [simp del]

text \<open>
  The body of \<open>tokens.forEach\<close>, on the pair of \<open>stack\<close> and \<open>output\<close>. The test
  \<open>t in ops\<close> is the lookup of an own key: no token is the name of an inherited
  property.
\<close>

definition shunt :: "string list \<times> item list \<Rightarrow> string \<Rightarrow> string list \<times> item list" where
  "shunt st t = (case st of (stack, output) \<Rightarrow>
     if \<not> isNaN (Number t) then (stack, output @ [N (Number t)])
     else if ops t \<noteq> None then
       (case popOps t stack output of (stack', output') \<Rightarrow> (stack' @ [t], output'))
     else if t = ''('' then (stack @ [t], output)
     else if t = '')'' then
       (case popToParen stack output of (stack', output') \<Rightarrow> (butlast stack', output'))
     else (stack, output))"

text \<open>\<open>while (stack.length) output.push(stack.pop())\<close>\<close>

function drain :: "string list \<Rightarrow> item list \<Rightarrow> item list" where
  "drain stack output =
     (if stack \<noteq> [] then drain (butlast stack) (output @ [S (last stack)]) else output)"
  by pat_completeness auto
termination
  by (relation "measure (\<lambda>(stack, output). length stack)") auto

declare drain.simps [simp del]

definition toPostfix :: "string list \<Rightarrow> item list" where
  "toPostfix toks = (case foldl shunt ([], []) toks of (stack, output) \<Rightarrow> drain stack output)"

text \<open>\<open>calc.pop()\<close>\<close>

definition pop :: "number list \<Rightarrow> jsval \<times> number list" where
  "pop calc = (if calc = [] then (Undefined, []) else (Num (last calc), butlast calc))"

text \<open>
  The \<open>switch\<close> on the popped string: \<open>res\<close> starts as \<open>0\<close> and stays so when no case
  matches.
\<close>

definition binop :: "string \<Rightarrow> jsval \<Rightarrow> jsval \<Rightarrow> number" where
  "binop t a b =
     (if t = ''+'' then fadd (ToNumber a) (ToNumber b)
      else if t = ''-'' then fsub (ToNumber a) (ToNumber b)
      else if t = ''*'' then fmul (ToNumber a) (ToNumber b)
      else if t = ''/'' then fdiv (ToNumber a) (ToNumber b)
      else Fin False 0)"

text \<open>The template literal \<open>`${a} ${t} ${b} = ${res}`\<close>\<close>

definition render :: "jsval \<Rightarrow> string \<Rightarrow> jsval \<Rightarrow> number \<Rightarrow> string" where
  "render a t b res = ToString a @ '' '' @ t @ '' '' @ ToString b @ '' = '' @ toString res"

text \<open>The body of \<open>output.forEach\<close>, on the pair of \<open>calc\<close> and \<open>steps\<close>.\<close>

definition applyItem :: "number list \<times> string list \<Rightarrow> item \<Rightarrow> number list \<times> string list" where
  "applyItem st it = (case st of (calc, trace) \<Rightarrow>
     (case it of
        N x \<Rightarrow> (calc @ [x], trace)
      | S t \<Rightarrow>
          (case pop calc of (b, calc1) \<Rightarrow>
           case pop calc1 of (a, calc2) \<Rightarrow>
             (calc2 @ [binop t a b], trace @ [render a t b (binop t a b)]))))"

text \<open>\<open>calc[0]\<close>\<close>

definition first :: "number list \<Rightarrow> jsval" where
  "first calc = (case calc of [] \<Rightarrow> Undefined | x # xs \<Rightarrow> Num x)"

definition calculateExpressionWithSteps :: "string \<Rightarrow> error + outcome" where
  "calculateExpressionWithSteps expr =
     (if \<not> test expr then Inl (Error ''Invalid expression'')
      else if tokens expr = [] then Inl (Error ''Invalid'')
      else (case foldl applyItem ([], []) (toPostfix (tokens expr)) of (calc, trace) \<Rightarrow>
              Inr \<lparr>result = first calc, steps = trace\<rparr>))"

subsection \<open>Executions, statement by statement\<close>

text \<open>
  The same function as a transition system on the states of its local variables, one
  rule for each branch of each statement. \<open>Start\<close> holds the argument; \<open>Scan\<close> is
  \<open>tokens.forEach\<close> with the tokens still to visit, \<open>stack\<close> and \<open>output\<close>; \<open>PopOps\<close> and
  \<open>PopParen\<close> are the two inner \<open>while\<close> loops; \<open>Drain\<close> is the \<open>while\<close> loop after the
  scan; \<open>Eval\<close> is \<open>output.forEach\<close> with the items still to visit, \<open>calc\<close> and \<open>steps\<close>;
  \<open>Done\<close> holds what the call throws or returns. Every call starts from \<open>Start\<close> with
  fresh arrays: the function reads and writes no variable outside its body.
\<close>

datatype config =
    Start string
  | Scan "string list" "string list" "item list"
  | PopOps string "string list" "string list" "item list"
  | PopParen "string list" "string list" "item list"
  | Drain "string list" "item list"
  | Eval "item list" "number list" "string list"
  | Done "error + outcome"

inductive step :: "config \<Rightarrow> config \<Rightarrow> bool" where
  invalid: "\<not> test expr \<Longrightarrow> step (Start expr) (Done (Inl (Error ''Invalid expression'')))"
| no_tokens: "test expr \<Longrightarrow> tokens expr = [] \<Longrightarrow>
    step (Start expr) (Done (Inl (Error ''Invalid'')))"
| scan: "test expr \<Longrightarrow> tokens expr \<noteq> [] \<Longrightarrow> step (Start expr) (Scan (tokens expr) [] [])"
| number: "\<not> isNaN (Number t) \<Longrightarrow>
    step (Scan (t # ts) stack out) (Scan ts stack (out @ [N (Number t)]))"
| operator: "isNaN (Number t) \<Longrightarrow> ops t \<noteq> None \<Longrightarrow>
    step (Scan (t # ts) stack out) (PopOps t ts stack out)"
| pop_op: "stack \<noteq> [] \<Longrightarrow> js_ge (ops (last stack)) (ops t) \<Longrightarrow>
    step (PopOps t ts stack out) (PopOps t ts (butlast stack) (out @ [S (last stack)]))"
| push_op: "\<not> (stack \<noteq> [] \<and> js_ge (ops (last stack)) (ops t)) \<Longrightarrow>
    step (PopOps t ts stack out) (Scan ts (stack @ [t]) out)"
| left_paren: "isNaN (Number t) \<Longrightarrow> ops t = None \<Longrightarrow> t = ''('' \<Longrightarrow>
    step (Scan (t # ts) stack out) (Scan ts (stack @ [t]) out)"
| right_paren: "isNaN (Number t) \<Longrightarrow> ops t = None \<Longrightarrow> t \<noteq> ''('' \<Longrightarrow> t = '')'' \<Longrightarrow>
    step (Scan (t # ts) stack out) (PopParen ts stack out)"
| pop_paren: "stack \<noteq> [] \<Longrightarrow> last stack \<noteq> ''('' \<Longrightarrow>
    step (PopParen ts stack out) (PopParen ts (butlast stack) (out @ [S (last stack)]))"
| drop_paren: "\<not> (stack \<noteq> [] \<and> last stack \<noteq> ''('') \<Longrightarrow>
    step (PopParen ts stack out) (Scan ts (butlast stack) out)"
| no_branch: "isNaN (Number t) \<Longrightarrow> ops t = None \<Longrightarrow> t \<noteq> ''('' \<Longrightarrow> t \<noteq> '')'' \<Longrightarrow>
    step (Scan (t # ts) stack out) (Scan ts stack out)"
| scanned: "step (Scan [] stack out) (Drain stack out)"
| drain_pop: "stack \<noteq> [] \<Longrightarrow>
    step (Drain stack out) (Drain (butlast stack) (out @ [S (last stack)]))"
| drained: "step (Drain [] out) (Eval out [] [])"
| push_number: "step (Eval (N x # its) calc trace) (Eval its (calc @ [x]) trace)"
| apply_op: "pop calc = (b, calc1) \<Longrightarrow> pop calc1 = (a, calc2) \<Longrightarrow>
    step (Eval (S t # its) calc trace)
      (Eval its (calc2 @ [binop t a b]) (trace @ [render a t b (binop t a b)]))"
| return: "step (Eval [] calc trace) (Done (Inr \<lparr>result = first calc, steps = trace\<rparr>))"

inductive_cases step_StartE: "step (Start expr) c"
inductive_cases step_ScanE: "step (Scan ts stack out) c"
inductive_cases step_PopOpsE: "step (PopOps t ts stack out) c"
inductive_cases step_PopParenE: "step (PopParen ts stack out) c"
inductive_cases step_DrainE: "step (Drain stack out) c"
inductive_cases step_EvalE: "step (Eval its calc trace) c"
inductive_cases step_DoneE: "step (Done r) c"

section \<open>The factorial of the scientific keys\<close>

text \<open>
  \<open>factorial\<close> of \<open>app/(tabs)/index.tsx\<close>:
  \<^verbatim>\<open>if (n < 0) return NaN; let r = 1; for (let i = 2; i <= n; i++) r *= i; return r;\<close>
  The loop is on numbers, and it does not end when \<open>i + 1\<close> rounds back to \<open>i\<close> before
  \<open>i\<close> passes \<open>n\<close>, so the function is partial: \<open>None\<close> is a call that never returns.
\<close>

partial_function (option) factorial_loop :: "number \<Rightarrow> number \<Rightarrow> number \<Rightarrow> number option" where
  "factorial_loop n r i =
     (if fle i n then factorial_loop n (fmul r i) (fadd i (Fin False 1)) else Some r)"

definition factorial :: "number \<Rightarrow> number option" where
  "factorial n =
     (if flt n (Fin False 0) then Some NaN else factorial_loop n (Fin False 1) (Fin False 2))"

section \<open>Inputs that the properties are about\<close>

text \<open>A non-empty string of digits, and the text of a sum \<open>d+e1+...+ek\<close> of such strings.\<close>

definition literal :: "string \<Rightarrow> bool" where
  "literal d = (d \<noteq> [] \<and> list_all isDigit d)"

definition sumExpr :: "string \<Rightarrow> string list \<Rightarrow> string" where
  "sumExpr d ds = d @ concat (map (\<lambda>e. ''+'' @ e) ds)"


text \<open>
  The strings that \<open>\d+(\.\d+)?\<close> matches in full: digits, or digits, a dot and
  digits.
\<close>

definition numberToken :: "string \<Rightarrow> bool" where
  "numberToken t =
     (literal t \<or>
      (literal (takeWhile isDigit t) \<and>
       (case dropWhile isDigit t of [] \<Rightarrow> False | c # fp \<Rightarrow> c = CHR ''.'' \<and> literal fp)))"

section \<open>Exact arithmetic on small integers\<close>

lemma bits_bounds:
  "0 < n \<Longrightarrow> 1 \<le> bits n \<and> 2 ^ nat (bits n - 1) \<le> n \<and> n < 2 ^ nat (bits n)"
proof (induction n rule: bits.induct)
  case (1 n)
  show ?case
  proof (cases "n = 1")
    case True
    have "bits 1 = 1"
      by (simp add: bits.simps [of 1] bits.simps [of 0])
    with True show ?thesis by simp
  next
    case False
    with "1.prems" have pos: "0 < n div 2" by simp
    from "1.prems" have nle: "\<not> n \<le> 0" by simp
    from "1.IH" [OF nle pos]
    have ih: "1 \<le> bits (n div 2)" "2 ^ nat (bits (n div 2) - 1) \<le> n div 2"
      "n div 2 < 2 ^ nat (bits (n div 2))" by simp_all
    have b: "bits n = 1 + bits (n div 2)"
      using nle by (simp add: bits.simps [of n])
    have e: "nat (bits (n div 2)) = Suc (nat (bits (n div 2) - 1))"
      using ih(1) by simp
    have "(2::int) ^ nat (bits n - 1) = 2 * 2 ^ nat (bits (n div 2) - 1)"
      using b e by simp
    also have "\<dots> \<le> 2 * (n div 2)" using ih(2) by simp
    also have "\<dots> \<le> n" by simp
    finally have lo: "2 ^ nat (bits n - 1) \<le> n" .
    have "nat (bits n) = Suc (nat (bits (n div 2)))"
      using b ih(1) by simp
    then have "(2::int) ^ nat (bits n) = 2 * 2 ^ nat (bits (n div 2))" by simp
    moreover have "n < 2 * (n div 2 + 1)" by simp
    moreover have "n div 2 + 1 \<le> 2 ^ nat (bits (n div 2))" using ih(3) by simp
    ultimately have hi: "n < 2 ^ nat (bits n)" by linarith
    from b ih(1) lo hi show ?thesis by simp
  qed
qed

lemma bits_1: "bits 1 = 1"
  by (simp add: bits.simps [of 1] bits.simps [of 0])

lemma ilog2_of_int:
  assumes "0 < n"
  shows "ilog2 (of_int n) = bits n - 1"
proof -
  from bits_bounds [OF assms] have "(2::int) ^ nat (bits n - 1) \<le> n" and "1 \<le> bits n"
    by simp_all
  then have "pow2 (bits n - 1) \<le> of_int n"
    by (simp add: pow2_def)
  then show ?thesis
    by (simp add: ilog2_def bits_1)
qed

lemma round_half_even_of_int: "round_half_even (of_int z) = z"
  by (simp add: round_half_even_def)

lemma rnd_of_int_small:
  assumes "0 < n" and "n < 2 ^ 53"
  shows "rnd s (of_int n) = Fin s (of_int n)"
proof -
  define e where "e = bits n - 1"
  from bits_bounds [OF assms(1)]
  have b: "0 \<le> e" "2 ^ nat e \<le> n" by (simp_all add: e_def)
  have "e \<le> 52"
  proof (rule ccontr)
    assume "\<not> e \<le> 52"
    then have "53 \<le> nat e" by simp
    then have "(2::int) ^ 53 \<le> 2 ^ nat e"
      by (intro power_increasing) simp_all
    with b(2) assms(2) show False by simp
  qed
  define k where "k = nat (52 - e)"
  have p: "pow2 (e - 52) = 1 / of_int (2 ^ k)"
    using \<open>e \<le> 52\<close> by (auto simp add: pow2_def k_def)
  have q: "(of_int n :: rat) / pow2 (e - 52) = of_int (n * 2 ^ k)"
    by (simp add: p)
  have l: "ilog2 (of_int n) = e"
    by (simp add: ilog2_of_int [OF assms(1)] e_def)
  have m: "max e (- 1022) = e" using b(1) by simp
  have n0: "(of_int n :: rat) \<noteq> 0" using assms(1) by simp
  have "rnd s (of_int n) = Fin s (of_int (n * 2 ^ k) * pow2 (e - 52))"
    using \<open>e \<le> 52\<close> n0 unfolding rnd_def l Let_def m q round_half_even_of_int by simp
  also have "of_int (n * 2 ^ k) * pow2 (e - 52) = (of_int n :: rat)"
    by (simp add: p)
  finally show ?thesis .
qed

lemma rnd_2_53: "rnd False 9007199254740992 = Fin False 9007199254740992"
  by code_simp

lemma rnd_of_int:
  assumes "0 \<le> n" and "n \<le> 2 ^ 53"
  shows "rnd False (of_int n) = Fin False (of_int n)"
proof -
  consider "n = 0" | "0 < n" "n < 2 ^ 53" | "n = 2 ^ 53"
    using assms by linarith
  then show ?thesis
  proof cases
    case 1
    then show ?thesis by (simp add: rnd_def)
  next
    case 2
    then show ?thesis by (rule rnd_of_int_small)
  next
    case 3
    then show ?thesis using rnd_2_53 by simp
  qed
qed

lemma fadd_of_int:
  assumes "0 \<le> a" and "0 \<le> b" and "a + b \<le> 2 ^ 53"
  shows "fadd (Fin False (of_int a)) (Fin False (of_int b)) = Fin False (of_int (a + b))"
proof (cases "a + b = 0")
  case True
  with assms have "a = 0" "b = 0" by simp_all
  then show ?thesis by (simp add: signed_def)
next
  case False
  with assms have pos: "0 < a + b" by simp
  then have "(of_int a :: rat) + of_int b \<noteq> 0" "\<not> (of_int a :: rat) + of_int b < 0"
    "\<bar>(of_int a :: rat) + of_int b\<bar> = of_int (a + b)"
    using assms by (simp_all flip: of_int_add)
  then show ?thesis
    using rnd_of_int [of "a + b"] assms pos by (simp add: signed_def)
qed

lemma rnd_not_NaN: "rnd s q \<noteq> NaN"
  by (simp add: rnd_def Let_def)

section \<open>Properties of the evaluator\<close>

subsection \<open>The phases\<close>

lemma ops_Some_iff: "(ops t \<noteq> None) = (t = ''+'' \<or> t = ''-'' \<or> t = ''*'' \<or> t = ''/'')"
  by (auto simp add: ops_def)

lemma drain_eq: "drain stack out = out @ map S (rev stack)"
proof (induction stack arbitrary: out rule: rev_induct)
  case Nil
  show ?case by (simp add: drain.simps)
next
  case (snoc x xs)
  show ?case by (subst drain.simps) (simp add: snoc)
qed

lemma toPostfix_Nil: "toPostfix [] = []"
  by (simp add: toPostfix_def drain.simps)

lemma applyItem_trace: "\<exists>ys. snd (applyItem (calc, trace) it) = trace @ ys"
  by (cases it) (auto simp add: applyItem_def split: prod.splits)

lemma foldl_applyItem_trace: "\<exists>ys. snd (foldl applyItem (calc, trace) its) = trace @ ys"
proof (induction its arbitrary: calc trace)
  case Nil
  show ?case by simp
next
  case (Cons it its)
  obtain calc' trace' where st: "applyItem (calc, trace) it = (calc', trace')"
    by (cases "applyItem (calc, trace) it")
  from applyItem_trace [of calc trace it] st obtain ys where ys: "trace' = trace @ ys"
    by auto
  from Cons.IH [of calc' trace'] obtain zs
    where "snd (foldl applyItem (calc', trace') its) = trace' @ zs" by blast
  with st ys show ?case by simp
qed

lemma evaluate_Inr:
  "test expr \<Longrightarrow> tokens expr \<noteq> [] \<Longrightarrow>
   calculateExpressionWithSteps expr =
     Inr \<lparr>result = first (fst (foldl applyItem ([], []) (toPostfix (tokens expr)))),
          steps = snd (foldl applyItem ([], []) (toPostfix (tokens expr)))\<rparr>"
  by (simp add: calculateExpressionWithSteps_def split: prod.split)

text \<open>A step recorded when an item of the postfix sequence is applied is in the trace returned.\<close>

lemma step_in_trace:
  assumes "toPostfix (tokens expr) = pre @ S t # post"
    and "foldl applyItem ([], []) pre = (calc, trace)"
    and "applyItem (calc, trace) (S t) = (calc', trace @ [s])"
  shows "s \<in> set (snd (foldl applyItem ([], []) (toPostfix (tokens expr))))"
proof -
  from foldl_applyItem_trace [of calc' "trace @ [s]" post] obtain ys
    where "snd (foldl applyItem (calc', trace @ [s]) post) = (trace @ [s]) @ ys" by blast
  with assms show ?thesis by simp
qed

lemma binop_underflow: "ops t \<noteq> None \<Longrightarrow> binop t Undefined b = NaN"
  unfolding ops_Some_iff by (auto simp add: binop_def fsub_def)

lemma fdiv_zero: "fdiv x (Fin s 0) \<in> {NaN, Infinity False, Infinity True}"
  by (cases x) auto

text \<open>
  Division by a zero of sign \<open>s\<close>: NaN when the dividend is NaN or a zero; otherwise
  an infinity, negative exactly when the signs of dividend and divisor differ.
\<close>

lemma fdiv_zero_exact:
  "fdiv x (Fin s 0) =
     (case x of
        NaN \<Rightarrow> NaN
      | Infinity t \<Rightarrow> Infinity (t \<noteq> s)
      | Fin t m \<Rightarrow> if m = 0 then NaN else Infinity (t \<noteq> s))"
  by (cases x) simp_all

subsection \<open>Failures\<close>

text \<open>
  C5. An input with a character outside \<open>[0-9+\-*/.() ]\<close> fails the first check of
  the function, whose error is \<open>Invalid expression\<close>, whatever its tokens would be; the
  specification calls this failure InvalidExpression. In particular \<open>2+3a\<close> fails so.
\<close>

theorem invalid_character_fails:
  "\<exists>c \<in> set expr. \<not> allowed c \<Longrightarrow>
     calculateExpressionWithSteps expr = Inl (Error ''Invalid expression'')"
  by (auto simp add: calculateExpressionWithSteps_def test_def list_all_iff)

theorem invalid_character_fails_witness:
  "(\<exists>c \<in> set ''2+3a''. \<not> allowed c) \<and>
   calculateExpressionWithSteps ''2+3a'' = Inl (Error ''Invalid expression'')"
proof -
  have bad: "\<exists>c \<in> set ''2+3a''. \<not> allowed c"
    by code_simp
  from invalid_character_fails [OF bad] bad show ?thesis by simp
qed

text \<open>
  C9. The function throws exactly when the character check fails or \<open>match\<close> finds no
  token. An input that passes the check and has a token gets an outcome, whatever its
  operators and operands: the conversion to postfix and the evaluation are total, and
  a missing operand only makes the value NaN or \<open>undefined\<close>.
\<close>

theorem fails_iff_invalid_or_no_tokens:
  "((\<exists>e. calculateExpressionWithSteps expr = Inl e) = (\<not> test expr \<or> tokens expr = [])) \<and>
   (test expr \<and> tokens expr \<noteq> [] \<longrightarrow> (\<exists>out. calculateExpressionWithSteps expr = Inr out))"
  by (simp add: calculateExpressionWithSteps_def split: prod.split)

theorem fails_iff_invalid_or_no_tokens_witness:
  "test ''2++'' \<and> tokens ''2++'' \<noteq> [] \<and>
   \<not> (\<exists>e. calculateExpressionWithSteps ''2++'' = Inl e) \<and>
   (\<exists>out. calculateExpressionWithSteps ''2++'' = Inr out)"
proof -
  have t: "test ''2++''" by code_simp
  have k: "tokens ''2++'' \<noteq> []" by code_simp
  from fails_iff_invalid_or_no_tokens [of "''2++''"] t k show ?thesis by simp
qed

text \<open>
  C1, as the code has it. The postfix evaluation throws nothing. When an operator
  \<open>+ - * /\<close> is applied and fewer than two values are on the operand stack, the left
  operand is \<open>undefined\<close> (and the right one too when the stack is empty), the result is
  NaN, the step is recorded with the text \<open>undefined\<close>, and the call returns an outcome.
\<close>

theorem operand_underflow_yields_NaN:
  assumes "test expr"
    and "toPostfix (tokens expr) = pre @ S t # post"
    and "ops t \<noteq> None"
    and "foldl applyItem ([], []) pre = (calc, trace)"
    and "length calc < 2"
  shows "\<exists>out. calculateExpressionWithSteps expr = Inr out \<and>
           render Undefined t (first calc) NaN \<in> set (steps out)"
proof -
  from assms(2) have toks: "tokens expr \<noteq> []"
    by (auto simp add: toPostfix_Nil)
  from assms(5) have "calc = [] \<or> (\<exists>x. calc = [x])"
    by (cases calc) (auto simp add: length_Suc_conv)
  then have "applyItem (calc, trace) (S t) =
      ([NaN], trace @ [render Undefined t (first calc) NaN])"
    using binop_underflow [OF assms(3)]
    by (auto simp add: applyItem_def pop_def first_def)
  from step_in_trace [OF assms(2) assms(4) this] evaluate_Inr [OF assms(1) toks]
  show ?thesis by simp
qed

theorem operand_underflow_yields_NaN_witness:
  "test ''+2'' \<and> toPostfix (tokens ''+2'') = [N (Fin False 2)] @ S ''+'' # [] \<and>
   ops ''+'' \<noteq> None \<and> foldl applyItem ([], []) [N (Fin False 2)] = ([Fin False 2], []) \<and>
   length [Fin False 2] < 2 \<and>
   (\<exists>out. calculateExpressionWithSteps ''+2'' = Inr out \<and>
      render Undefined ''+'' (first [Fin False 2]) NaN \<in> set (steps out))"
proof -
  have a: "test ''+2''" by code_simp
  have b: "toPostfix (tokens ''+2'') = [N (Fin False 2)] @ S ''+'' # []" by code_simp
  have c: "ops ''+'' \<noteq> None" by (simp add: ops_def)
  have d: "foldl applyItem ([], []) [N (Fin False 2)] = ([Fin False 2], [])"
    by (simp add: applyItem_def)
  have e: "length [Fin False 2] < 2" by simp
  from operand_underflow_yields_NaN [OF a b c d e] a b c d e show ?thesis by blast
qed

text \<open>
  The input \<open>+2\<close>: its postfix sequence is \<open>2 +\<close>, the operator finds one value on the
  stack, and the call returns NaN with one step; the claim's MalformedExpression failure
  is not raised.
\<close>

theorem operand_underflow_counterexample:
  "toPostfix (tokens ''+2'') = [N (Fin False 2), S ''+''] \<and>
   calculateExpressionWithSteps ''+2'' =
     Inr \<lparr>result = Num NaN, steps = [''undefined + 2 = NaN'']\<rparr>"
  by code_simp

text \<open>
  C6, as the code has it. An input that passes the character check and whose evaluation
  reaches a division with a zero on top of the operand stack (either zero) gets an
  outcome and no failure. The result of that division is NaN when the left operand is
  \<open>undefined\<close>, NaN or a zero, and otherwise an infinity, negative exactly when the
  signs of the operands differ; its step is in the trace. The value returned is that
  result when the division is the last item applied and its operands are the whole
  stack; in general it is \<open>calc[0]\<close> after the items that follow.
\<close>

theorem division_by_zero_result:
  assumes "test expr"
    and "toPostfix (tokens expr) = pre @ S ''/'' # post"
    and "foldl applyItem ([], []) pre = (calc, trace)"
    and "pop calc = (Num (Fin s 0), calc1)"
    and "pop calc1 = (a, calc2)"
  shows "\<exists>out. calculateExpressionWithSteps expr = Inr out \<and>
           fdiv (ToNumber a) (Fin s 0) =
             (case ToNumber a of
                NaN \<Rightarrow> NaN
              | Infinity t \<Rightarrow> Infinity (t \<noteq> s)
              | Fin t m \<Rightarrow> if m = 0 then NaN else Infinity (t \<noteq> s)) \<and>
           fdiv (ToNumber a) (Fin s 0) \<in> {NaN, Infinity False, Infinity True} \<and>
           render a ''/'' (Num (Fin s 0)) (fdiv (ToNumber a) (Fin s 0)) \<in> set (steps out) \<and>
           (post = [] \<and> calc2 = [] \<longrightarrow> result out = Num (fdiv (ToNumber a) (Fin s 0)))"
proof -
  from assms(2) have toks: "tokens expr \<noteq> []"
    by (auto simp add: toPostfix_Nil)
  have ap: "applyItem (calc, trace) (S ''/'') =
      (calc2 @ [fdiv (ToNumber a) (Fin s 0)],
       trace @ [render a ''/'' (Num (Fin s 0)) (fdiv (ToNumber a) (Fin s 0))])"
    using assms(4,5) by (simp add: applyItem_def binop_def)
  have res: "first (fst (foldl applyItem ([], []) (toPostfix (tokens expr)))) =
      Num (fdiv (ToNumber a) (Fin s 0))" if "post = []" "calc2 = []"
    using that assms(2,3) ap by (simp add: first_def)
  from step_in_trace [OF assms(2) assms(3) ap] evaluate_Inr [OF assms(1) toks]
    fdiv_zero [of "ToNumber a" s] fdiv_zero_exact [of "ToNumber a" s] res
  show ?thesis by simp
qed

theorem division_by_zero_result_witness:
  "test ''1/0'' \<and>
   toPostfix (tokens ''1/0'') = [N (Fin False 1), N (Fin False 0)] @ S ''/'' # [] \<and>
   foldl applyItem ([], []) [N (Fin False 1), N (Fin False 0)] = ([Fin False 1, Fin False 0], []) \<and>
   pop [Fin False 1, Fin False 0] = (Num (Fin False 0), [Fin False 1]) \<and>
   pop [Fin False 1] = (Num (Fin False 1), []) \<and>
   (\<exists>out. calculateExpressionWithSteps ''1/0'' = Inr out \<and>
      fdiv (Fin False 1) (Fin False 0) = Infinity False \<and>
      render (Num (Fin False 1)) ''/'' (Num (Fin False 0)) (Infinity False) \<in> set (steps out) \<and>
      result out = Num (Infinity False)) \<and>
   test ''0/0'' \<and>
   toPostfix (tokens ''0/0'') = [N (Fin False 0), N (Fin False 0)] @ S ''/'' # [] \<and>
   foldl applyItem ([], []) [N (Fin False 0), N (Fin False 0)] = ([Fin False 0, Fin False 0], []) \<and>
   pop [Fin False 0, Fin False 0] = (Num (Fin False 0), [Fin False 0]) \<and>
   pop [Fin False 0] = (Num (Fin False 0), []) \<and>
   (\<exists>out. calculateExpressionWithSteps ''0/0'' = Inr out \<and>
      fdiv (Fin False 0) (Fin False 0) = NaN \<and>
      render (Num (Fin False 0)) ''/'' (Num (Fin False 0)) NaN \<in> set (steps out) \<and>
      result out = Num NaN)"
proof -
  have a: "test ''1/0''" by code_simp
  have b: "toPostfix (tokens ''1/0'') = [N (Fin False 1), N (Fin False 0)] @ S ''/'' # []"
    by code_simp
  have c: "foldl applyItem ([], []) [N (Fin False 1), N (Fin False 0)] =
      ([Fin False 1, Fin False 0], [])"
    by (simp add: applyItem_def)
  have d: "pop [Fin False 1, Fin False 0] = (Num (Fin False 0), [Fin False 1])"
    by (simp add: pop_def)
  have e: "pop [Fin False 1] = (Num (Fin False 1), [])"
    by (simp add: pop_def)
  have one: "\<exists>out. calculateExpressionWithSteps ''1/0'' = Inr out \<and>
      fdiv (Fin False 1) (Fin False 0) = Infinity False \<and>
      render (Num (Fin False 1)) ''/'' (Num (Fin False 0)) (Infinity False) \<in> set (steps out) \<and>
      result out = Num (Infinity False)"
    using division_by_zero_result [OF a b c d e] by simp
  have a': "test ''0/0''" by code_simp
  have b': "toPostfix (tokens ''0/0'') = [N (Fin False 0), N (Fin False 0)] @ S ''/'' # []"
    by code_simp
  have c': "foldl applyItem ([], []) [N (Fin False 0), N (Fin False 0)] =
      ([Fin False 0, Fin False 0], [])"
    by (simp add: applyItem_def)
  have d': "pop [Fin False 0, Fin False 0] = (Num (Fin False 0), [Fin False 0])"
    by (simp add: pop_def)
  have e': "pop [Fin False 0] = (Num (Fin False 0), [])"
    by (simp add: pop_def)
  have two: "\<exists>out. calculateExpressionWithSteps ''0/0'' = Inr out \<and>
      fdiv (Fin False 0) (Fin False 0) = NaN \<and>
      render (Num (Fin False 0)) ''/'' (Num (Fin False 0)) NaN \<in> set (steps out) \<and>
      result out = Num NaN"
    using division_by_zero_result [OF a' b' c' d' e'] by simp
  from a b c d e one a' b' c' d' e' two show ?thesis by blast
qed

text \<open>
  The inputs \<open>5.5.1/0\<close> and \<open>1/(1/0)\<close>: both divide by zero and both return a finite
  value, neither Infinity nor NaN. In the first the quotient stays above \<open>5.5\<close> on the
  stack; in the second the infinite quotient is the divisor of the next division.
\<close>

theorem division_by_zero_counterexample:
  "toPostfix (tokens ''5.5.1/0'') =
     [N (Fin False (11 / 2)), N (Fin False 1), N (Fin False 0), S ''/''] \<and>
   foldl applyItem ([], []) [N (Fin False (11 / 2)), N (Fin False 1), N (Fin False 0)] =
     ([Fin False (11 / 2), Fin False 1, Fin False 0], []) \<and>
   calculateExpressionWithSteps ''5.5.1/0'' =
     Inr \<lparr>result = Num (Fin False (11 / 2)), steps = [''1 / 0 = Infinity'']\<rparr> \<and>
   calculateExpressionWithSteps ''1/(1/0)'' =
     Inr \<lparr>result = Num (Fin False 0), steps = [''1 / 0 = Infinity'', ''1 / Infinity = 0'']\<rparr>"
  by code_simp

text \<open>Negative dividends and the negative zero give the negative infinity.\<close>

lemma division_by_zero_signs:
  "calculateExpressionWithSteps ''(0-1)/0'' =
     Inr \<lparr>result = Num (Infinity True), steps = [''0 - 1 = -1'', ''-1 / 0 = -Infinity'']\<rparr> \<and>
   calculateExpressionWithSteps ''1/(0*(0-1))'' =
     Inr \<lparr>result = Num (Infinity True),
          steps = [''0 - 1 = -1'', ''0 * -1 = 0'', ''1 / 0 = -Infinity'']\<rparr>"
  by code_simp

subsection \<open>The postfix sequence\<close>

text \<open>
  C3, as the code has it. After the scan every entry left on the stack goes to the
  postfix output, last entry first, operators and left parentheses alike: the postfix
  sequence is the output of the scan followed by the whole stack reversed.
\<close>

theorem remaining_stack_appended:
  "toPostfix toks =
     snd (foldl shunt ([], []) toks) @ map S (rev (fst (foldl shunt ([], []) toks)))"
  by (simp add: toPostfix_def drain_eq split: prod.split)

text \<open>
  The input \<open>(2\<close>: the unmatched parenthesis is in the postfix sequence, and the
  evaluation applies it as if it were an operator.
\<close>

theorem unmatched_paren_counterexample:
  "foldl shunt ([], []) (tokens ''(2'') = ([''(''], [N (Fin False 2)]) \<and>
   toPostfix (tokens ''(2'') = [N (Fin False 2), S ''(''] \<and>
   calculateExpressionWithSteps ''(2'' =
     Inr \<lparr>result = Num (Fin False 0), steps = [''undefined ( 2 = 0'']\<rparr>"
  by code_simp

subsection \<open>Worked expressions\<close>

text \<open>
  C2. \<open>2+3*4\<close> evaluates to 14, and the trace has the multiplication first and the
  addition second.
\<close>

theorem precedence_example:
  "calculateExpressionWithSteps ''2+3*4'' =
     Inr \<lparr>result = Num (Fin False 14), steps = [''3 * 4 = 12'', ''2 + 12 = 14'']\<rparr>"
  by code_simp

text \<open>The other worked expressions of the specification.\<close>

lemma parentheses_example:
  "calculateExpressionWithSteps ''(2+3)*4'' =
     Inr \<lparr>result = Num (Fin False 20), steps = [''2 + 3 = 5'', ''5 * 4 = 20'']\<rparr>"
  by code_simp

lemma division_example:
  "calculateExpressionWithSteps ''10/2/5'' =
     Inr \<lparr>result = Num (Fin False 1), steps = [''10 / 2 = 5'', ''5 / 5 = 1'']\<rparr>"
  by code_simp

lemma decimal_example:
  "calculateExpressionWithSteps ''1.5+2.5'' =
     Inr \<lparr>result = Num (Fin False 4), steps = [''1.5 + 2.5 = 4'']\<rparr>"
  by code_simp

text \<open>
  An empty pair of parentheses has tokens and an empty postfix sequence: the value
  returned is \<open>calc[0]\<close> of an empty array.
\<close>

lemma empty_parentheses:
  "calculateExpressionWithSteps ''()'' = Inr \<lparr>result = Undefined, steps = []\<rparr>"
  by code_simp

subsection \<open>The tokenizer\<close>

lemma not_isDigit_plus: "\<not> isDigit CHR ''+''"
  by (simp add: isDigit_def)

lemma not_isDigit_dot: "\<not> isDigit CHR ''.''"
  by (simp add: isDigit_def)

lemma tokens_literal: "literal d \<Longrightarrow> tokens d = [d]"
proof -
  assume l: "literal d"
  then obtain c cs where d: "d = c # cs" by (cases d) (auto simp add: literal_def)
  with l have c: "isDigit c" and cs: "\<forall>x\<in>set cs. isDigit x"
    by (auto simp add: literal_def list_all_iff)
  from cs have dw: "dropWhile isDigit cs = []" and tw: "takeWhile isDigit cs = cs"
    by simp_all
  show ?thesis unfolding d tokens.simps(2) [of c cs] dw tw using c by simp
qed

lemma tokens_literal_plus:
  "literal d \<Longrightarrow> tokens (d @ CHR ''+'' # rest) = d # ''+'' # tokens rest"
proof -
  assume l: "literal d"
  then obtain c cs where d: "d = c # cs" by (cases d) (auto simp add: literal_def)
  with l have c: "isDigit c" and cs: "\<And>x. x \<in> set cs \<Longrightarrow> isDigit x"
    by (auto simp add: literal_def list_all_iff)
  have dw: "dropWhile isDigit (cs @ CHR ''+'' # rest) = CHR ''+'' # rest"
    using cs by (simp add: dropWhile_append2 not_isDigit_plus)
  have tw: "takeWhile isDigit (cs @ CHR ''+'' # rest) = cs"
    using cs by (simp add: takeWhile_append2 not_isDigit_plus)
  have pl: "tokens (CHR ''+'' # rest) = ''+'' # tokens rest"
    by (simp add: tokens.simps(2) not_isDigit_plus)
  have "tokens (c # cs @ CHR ''+'' # rest) = (c # cs) # tokens (CHR ''+'' # rest)"
    unfolding tokens.simps(2) [of c "cs @ CHR ''+'' # rest"] dw tw using c by simp
  then show ?thesis unfolding d pl by simp
qed

lemma tokens_sumExpr:
  "list_all literal (d # ds) \<Longrightarrow>
   tokens (sumExpr d ds) = d # concat (map (\<lambda>e. [''+'', e]) ds)"
proof (induction ds arbitrary: d)
  case Nil
  then show ?case by (simp add: sumExpr_def tokens_literal)
next
  case (Cons e es)
  from Cons.prems have d: "literal d" and rest: "list_all literal (e # es)"
    by simp_all
  have "tokens (sumExpr d (e # es)) = tokens (d @ CHR ''+'' # sumExpr e es)"
    by (simp add: sumExpr_def)
  also have "\<dots> = d # ''+'' # tokens (sumExpr e es)"
    by (rule tokens_literal_plus [OF d])
  also have "tokens (sumExpr e es) = e # concat (map (\<lambda>e. [''+'', e]) es)"
    by (rule Cons.IH [OF rest])
  finally show ?case by simp
qed









subsection \<open>Sums of literals\<close>

lemma isDigit_allowed: "isDigit c \<Longrightarrow> allowed c"
  by (auto simp add: isDigit_def allowed_def)

lemma allowed_plus: "allowed CHR ''+''"
  by (simp add: allowed_def)

lemma literal_allowed: "literal d \<Longrightarrow> list_all allowed d"
  by (auto simp add: literal_def list_all_iff isDigit_allowed)

lemma test_sumExpr:
  assumes "list_all literal (d # ds)"
  shows "test (sumExpr d ds)"
proof -
  from assms have "d \<noteq> []" by (simp add: literal_def)
  then have ne: "sumExpr d ds \<noteq> []" by (simp add: sumExpr_def)
  from assms have "list_all allowed d" "\<forall>e\<in>set ds. list_all allowed e"
    using literal_allowed by (auto simp add: list_all_iff)
  then have "list_all allowed (sumExpr d ds)"
    unfolding sumExpr_def by (induction ds) (simp_all add: allowed_plus)
  with ne show ?thesis by (simp add: test_def)
qed

lemma Number_literal: "literal d \<Longrightarrow> Number d = rnd False (of_int (intOfDigits d))"
proof -
  assume l: "literal d"
  then have tw: "takeWhile isDigit d = d" and dw: "dropWhile isDigit d = []" and ne: "d \<noteq> []"
    by (auto simp add: literal_def list_all_iff)
  show ?thesis unfolding Number_def Let_def tw dw using ne by simp
qed

lemma digitVal_nonneg: "isDigit c \<Longrightarrow> 0 \<le> digitVal c"
  by (auto simp add: isDigit_def digitVal_def)

lemma foldl_digits_nonneg:
  "0 \<le> n \<Longrightarrow> list_all isDigit ds \<Longrightarrow> 0 \<le> foldl (\<lambda>n c. 10 * n + digitVal c) n ds"
proof (induction ds arbitrary: n)
  case Nil
  then show ?case by simp
next
  case (Cons c cs)
  from Cons.prems have "0 \<le> 10 * n + digitVal c"
    using digitVal_nonneg [of c] by simp
  with Cons show ?case by simp
qed

lemma intOfDigits_nonneg: "literal d \<Longrightarrow> 0 \<le> intOfDigits d"
  by (simp add: intOfDigits_def literal_def foldl_digits_nonneg)

lemma Number_plus: "Number ''+'' = NaN"
  by (simp add: Number_def isDigit_def)

lemma ops_plus: "ops ''+'' = Some 1"
  by (simp add: ops_def)

lemma shunt_literal: "literal d \<Longrightarrow> shunt (st, out) d = (st, out @ [N (Number d)])"
  by (simp add: shunt_def isNaN_def Number_literal rnd_not_NaN)

lemma shunt_plus:
  "st = [] \<or> st = [''+''] \<Longrightarrow> shunt (st, out) ''+'' = ([''+''], out @ map S st)"
  by (auto simp add: shunt_def isNaN_def Number_plus ops_plus popOps.simps [of _ "[]"]
      popOps.simps [of _ "[''+'']"])

lemma shunt_pairs:
  "list_all literal ds \<Longrightarrow> ds \<noteq> [] \<Longrightarrow> st = [] \<or> st = [''+''] \<Longrightarrow>
   \<exists>out'. foldl shunt (st, out) (concat (map (\<lambda>e. [''+'', e]) ds)) = ([''+''], out') \<and>
     out' @ [S ''+''] = out @ map S st @ concat (map (\<lambda>e. [N (Number e), S ''+'']) ds)"
proof (induction ds arbitrary: st out)
  case Nil
  then show ?case by simp
next
  case (Cons e es)
  from Cons.prems have e: "literal e" and es: "list_all literal es" by simp_all
  have one: "foldl shunt (st, out) [''+'', e] = ([''+''], out @ map S st @ [N (Number e)])"
    using Cons.prems(3) by (simp add: shunt_plus shunt_literal [OF e])
  show ?case
  proof (cases "es = []")
    case True
    with one show ?thesis by simp
  next
    case False
    from Cons.IH [OF es False, of "[''+'']" "out @ map S st @ [N (Number e)]"]
    obtain out' where
      "foldl shunt ([''+''], out @ map S st @ [N (Number e)])
         (concat (map (\<lambda>e. [''+'', e]) es)) = ([''+''], out')"
      "out' @ [S ''+''] = (out @ map S st @ [N (Number e)]) @ map S [''+''] @
         concat (map (\<lambda>e. [N (Number e), S ''+'']) es)"
      by auto
    with one show ?thesis by simp
  qed
qed

lemma toPostfix_sum:
  assumes "list_all literal (d # ds)"
  shows "toPostfix (d # concat (map (\<lambda>e. [''+'', e]) ds)) =
           N (Number d) # concat (map (\<lambda>e. [N (Number e), S ''+'']) ds)"
proof (cases "ds = []")
  case True
  with assms show ?thesis
    by (simp add: toPostfix_def shunt_literal drain_eq)
next
  case False
  from assms have d: "literal d" and ds: "list_all literal ds" by simp_all
  from shunt_pairs [OF ds False, of "[]" "[N (Number d)]"] obtain out' where
    "foldl shunt ([], [N (Number d)]) (concat (map (\<lambda>e. [''+'', e]) ds)) = ([''+''], out')"
    "out' @ [S ''+''] = [N (Number d)] @ concat (map (\<lambda>e. [N (Number e), S ''+'']) ds)"
    by auto
  then show ?thesis
    using shunt_literal [OF d, of "[]" "[]"] by (simp add: toPostfix_def drain_eq)
qed

lemma applyItem_pair:
  "foldl applyItem ([x], tr) [N v, S ''+''] =
     ([fadd x v], tr @ [render (Num x) ''+'' (Num v) (fadd x v)])"
  by (simp add: applyItem_def pop_def binop_def)

lemma applyItem_pairs:
  "\<exists>tr'. foldl applyItem ([x], tr) (concat (map (\<lambda>e. [N (Number e), S ''+'']) ds)) =
     ([foldl fadd x (map Number ds)], tr') \<and> length tr' = length tr + length ds"
proof (induction ds arbitrary: x tr)
  case Nil
  show ?case by simp
next
  case (Cons e es)
  from Cons [of "fadd x (Number e)" "tr @ [render (Num x) ''+'' (Num (Number e)) (fadd x (Number e))]"]
  show ?case using applyItem_pair [of x tr "Number e"] by auto
qed

lemma foldl_fadd_exact:
  "list_all literal ds \<Longrightarrow> 0 \<le> a \<Longrightarrow> a + (\<Sum>e\<leftarrow>ds. intOfDigits e) \<le> 2 ^ 53 \<Longrightarrow>
   foldl fadd (Fin False (of_int a)) (map Number ds) =
     Fin False (of_int (a + (\<Sum>e\<leftarrow>ds. intOfDigits e)))"
proof (induction ds arbitrary: a)
  case Nil
  show ?case by simp
next
  case (Cons e es)
  from Cons.prems have e: "literal e" and es: "list_all literal es" by simp_all
  have sum0: "0 \<le> (\<Sum>e\<leftarrow>es. intOfDigits e)"
    using es by (induction es) (auto simp add: intOfDigits_nonneg)
  have e0: "0 \<le> intOfDigits e" by (rule intOfDigits_nonneg [OF e])
  from Cons.prems(3) sum0 Cons.prems(2) have le: "intOfDigits e \<le> 2 ^ 53" "a + intOfDigits e \<le> 2 ^ 53"
    by simp_all
  have "Number e = Fin False (of_int (intOfDigits e))"
    using Number_literal [OF e] rnd_of_int [OF e0 le(1)] by simp
  then have "fadd (Fin False (of_int a)) (Number e) = Fin False (of_int (a + intOfDigits e))"
    using fadd_of_int [OF Cons.prems(2) e0 le(2)] by simp
  moreover have "0 \<le> a + intOfDigits e" using Cons.prems(2) e0 by simp
  moreover have "a + intOfDigits e + (\<Sum>e\<leftarrow>es. intOfDigits e) \<le> 2 ^ 53"
    using Cons.prems(3) by (simp add: add.assoc)
  ultimately show ?case using Cons.IH [OF es, of "a + intOfDigits e"]
    by (simp add: add.assoc)
qed

text \<open>
  C4, as the code has it. For a sum \<open>d+e1+...+ek\<close> of non-empty digit strings the call
  returns an outcome whose trace has \<open>k\<close> steps, one less than the operands; its
  value is the arithmetic sum of the literals when that sum is at most \<open>2 ^ 53\<close>, the
  range in which every integer is a binary64 value.
\<close>

theorem sum_of_literals:
  assumes "list_all literal (d # ds)"
  shows "\<exists>out. calculateExpressionWithSteps (sumExpr d ds) = Inr out \<and>
           length (steps out) = length ds \<and>
           (intOfDigits d + (\<Sum>e\<leftarrow>ds. intOfDigits e) \<le> 2 ^ 53 \<longrightarrow>
              result out = Num (Fin False (of_int (intOfDigits d + (\<Sum>e\<leftarrow>ds. intOfDigits e)))))"
proof -
  from assms have d: "literal d" and ds: "list_all literal ds" by simp_all
  have t: "test (sumExpr d ds)" by (rule test_sumExpr [OF assms])
  have toks: "tokens (sumExpr d ds) = d # concat (map (\<lambda>e. [''+'', e]) ds)"
    by (rule tokens_sumExpr [OF assms])
  then have ne: "tokens (sumExpr d ds) \<noteq> []" by simp
  have pf: "toPostfix (tokens (sumExpr d ds)) =
      N (Number d) # concat (map (\<lambda>e. [N (Number e), S ''+'']) ds)"
    unfolding toks by (rule toPostfix_sum [OF assms])
  from applyItem_pairs [of "Number d" "[]" ds] obtain tr' where
    run: "foldl applyItem ([Number d], []) (concat (map (\<lambda>e. [N (Number e), S ''+'']) ds)) =
       ([foldl fadd (Number d) (map Number ds)], tr')" and len: "length tr' = length ds"
    by auto
  have ev: "foldl applyItem ([], []) (toPostfix (tokens (sumExpr d ds))) =
       ([foldl fadd (Number d) (map Number ds)], tr')"
    unfolding pf using run by (simp add: applyItem_def)
  have res: "calculateExpressionWithSteps (sumExpr d ds) =
      Inr \<lparr>result = Num (foldl fadd (Number d) (map Number ds)), steps = tr'\<rparr>"
    unfolding evaluate_Inr [OF t ne] ev by (simp add: first_def)
  have val: "foldl fadd (Number d) (map Number ds) =
      Fin False (of_int (intOfDigits d + (\<Sum>e\<leftarrow>ds. intOfDigits e)))"
    if bound: "intOfDigits d + (\<Sum>e\<leftarrow>ds. intOfDigits e) \<le> 2 ^ 53"
  proof -
    have sum0: "0 \<le> (\<Sum>e\<leftarrow>ds. intOfDigits e)"
      using ds by (induction ds) (auto simp add: intOfDigits_nonneg)
    have d0: "0 \<le> intOfDigits d" by (rule intOfDigits_nonneg [OF d])
    from bound sum0 have "intOfDigits d \<le> 2 ^ 53" by simp
    then have "Number d = Fin False (of_int (intOfDigits d))"
      using Number_literal [OF d] rnd_of_int [OF d0] by simp
    then show ?thesis using foldl_fadd_exact [OF ds d0 bound] by simp
  qed
  from res len val show ?thesis by simp
qed

theorem sum_of_literals_witness:
  "list_all literal [''2'', ''30'', ''4''] \<and> sumExpr ''2'' [''30'', ''4''] = ''2+30+4'' \<and>
   intOfDigits ''2'' + (\<Sum>e\<leftarrow>[''30'', ''4'']. intOfDigits e) = 36 \<and> (36::int) \<le> 2 ^ 53 \<and>
   (\<exists>out. calculateExpressionWithSteps ''2+30+4'' = Inr out \<and> length (steps out) = 2 \<and>
      result out = Num (Fin False 36))"
proof -
  have a: "list_all literal [''2'', ''30'', ''4'']" by code_simp
  have b: "sumExpr ''2'' [''30'', ''4''] = ''2+30+4''" by (simp add: sumExpr_def)
  have c: "intOfDigits ''2'' + (\<Sum>e\<leftarrow>[''30'', ''4'']. intOfDigits e) = 36"
    by (simp add: intOfDigits_def digitVal_def)
  have d: "(36::int) \<le> 2 ^ 53" by simp
  from sum_of_literals [OF a] obtain out where
    "calculateExpressionWithSteps (sumExpr ''2'' [''30'', ''4'']) = Inr out"
    "length (steps out) = length [''30'', ''4'']"
    "intOfDigits ''2'' + (\<Sum>e\<leftarrow>[''30'', ''4'']. intOfDigits e) \<le> 2 ^ 53 \<longrightarrow>
       result out =
         Num (Fin False (of_int (intOfDigits ''2'' + (\<Sum>e\<leftarrow>[''30'', ''4'']. intOfDigits e))))"
    by blast
  then have "calculateExpressionWithSteps ''2+30+4'' = Inr out \<and> length (steps out) = 2 \<and>
      result out = Num (Fin False 36)"
    unfolding b c using d by simp
  with a b c d show ?thesis by blast
qed

text \<open>
  The sum \<open>9007199254740992+1\<close>: the literals add up to \<open>2 ^ 53 + 1\<close>, which is not a
  binary64 value, and the call returns \<open>2 ^ 53\<close>.
\<close>

theorem sum_of_literals_counterexample:
  "intOfDigits ''9007199254740992'' + intOfDigits ''1'' = 9007199254740993 \<and>
   calculateExpressionWithSteps ''9007199254740992+1'' =
     Inr \<lparr>result = Num (Fin False 9007199254740992),
          steps = [''9007199254740992 + 1 = 9007199254740992'']\<rparr>"
  by code_simp

text \<open>
  With two operators in a row the input still passes the character check, and the
  second addition finds one value only: \<open>2++3\<close> has two operands and two steps.
\<close>

lemma doubled_operator:
  "calculateExpressionWithSteps ''2++3'' =
     Inr \<lparr>result = Num NaN, steps = [''undefined + 2 = NaN'', ''NaN + 3 = NaN'']\<rparr>"
  by code_simp

subsection \<open>What the tokens are\<close>

text \<open>
  Every token is a number literal or one of the six symbols, and \<open>Number\<close> tells the
  two apart: the first branch of the scan takes the literals and no other token.
\<close>

lemma literal_takeWhile: "isDigit c \<Longrightarrow> literal (c # takeWhile isDigit cs)"
  by (auto simp add: literal_def list_all_iff dest: set_takeWhileD)

lemma literal_takeWhile': "takeWhile isDigit r \<noteq> [] \<Longrightarrow> literal (takeWhile isDigit r)"
  by (auto simp add: literal_def list_all_iff dest: set_takeWhileD)

lemma takeWhile_literal_dot:
  "literal ip \<Longrightarrow> takeWhile isDigit (ip @ CHR ''.'' # fp) = ip"
  by (simp add: literal_def list_all_iff takeWhile_append2 not_isDigit_dot)

lemma dropWhile_literal_dot:
  "literal ip \<Longrightarrow> dropWhile isDigit (ip @ CHR ''.'' # fp) = CHR ''.'' # fp"
  by (simp add: literal_def list_all_iff dropWhile_append2 not_isDigit_dot)

lemma numberToken_fraction:
  "literal ip \<Longrightarrow> literal fp \<Longrightarrow> numberToken (ip @ CHR ''.'' # fp)"
  by (simp add: numberToken_def takeWhile_literal_dot dropWhile_literal_dot)

lemma tokens_shape:
  "t \<in> set (tokens s) \<Longrightarrow>
     numberToken t \<or> t \<in> {''('', '')'', ''+'', ''-'', ''*'', ''/''}"
proof (induction s rule: tokens.induct)
  case 1
  then show ?case by simp
next
  case (2 c cs)
  show ?case
  proof (cases "isDigit c")
    case digit: True
    have lit: "literal (c # takeWhile isDigit cs)"
      by (rule literal_takeWhile [OF digit])
    show ?thesis
    proof (cases "dropWhile isDigit cs")
      case Nil
      have "tokens (c # cs) = [c # takeWhile isDigit cs]"
        unfolding tokens.simps(2) [of c cs] Nil using digit by simp
      with "2.prems" lit show ?thesis by (simp add: numberToken_def)
    next
      case (Cons d r)
      show ?thesis
      proof (cases "d = CHR ''.'' \<and> takeWhile isDigit r \<noteq> []")
        case frac: True
        have "tokens (c # cs) =
            ((c # takeWhile isDigit cs) @ CHR ''.'' # takeWhile isDigit r)
              # tokens (dropWhile isDigit r)"
          unfolding tokens.simps(2) [of c cs] Cons using digit frac by simp
        with "2.prems" consider
            "t = (c # takeWhile isDigit cs) @ CHR ''.'' # takeWhile isDigit r"
          | "t \<in> set (tokens (dropWhile isDigit r))"
          by auto
        then show ?thesis
        proof cases
          case 1
          with numberToken_fraction [OF lit literal_takeWhile', of r] frac
          show ?thesis by simp
        next
          case 2
          then show ?thesis by (rule "2.IH"(1) [OF digit Cons frac])
        qed
      next
        case nofrac: False
        have "tokens (c # cs) = (c # takeWhile isDigit cs) # tokens (d # r)"
          unfolding tokens.simps(2) [of c cs] Cons using digit nofrac by simp
        with "2.prems" consider "t = c # takeWhile isDigit cs" | "t \<in> set (tokens (d # r))"
          by auto
        then show ?thesis
        proof cases
          case 1
          with lit show ?thesis by (simp add: numberToken_def)
        next
          case 2
          then show ?thesis by (rule "2.IH"(2) [OF digit Cons nofrac])
        qed
      qed
    qed
  next
    case other: False
    show ?thesis
    proof (cases "c \<in> set ''()+-*/''")
      case True
      then have "tokens (c # cs) = [c] # tokens cs"
        using other by (simp add: tokens.simps(2) [of c cs])
      with "2.prems" consider "t = [c]" | "t \<in> set (tokens cs)" by auto
      then show ?thesis
      proof cases
        case 1
        with True show ?thesis by auto
      next
        case 2
        then show ?thesis by (rule "2.IH"(3) [OF other True])
      qed
    next
      case False
      then have "tokens (c # cs) = tokens cs"
        using other by (simp add: tokens.simps(2) [of c cs])
      with "2.prems" have "t \<in> set (tokens cs)" by simp
      then show ?thesis by (rule "2.IH"(4) [OF other False])
    qed
  qed
qed

lemma Number_numberToken: "numberToken t \<Longrightarrow> \<not> isNaN (Number t)"
proof -
  assume "numberToken t"
  then consider "literal t"
    | ip fp where "literal ip" "literal fp" "t = ip @ CHR ''.'' # fp"
  proof (cases "literal t")
    case True
    then show ?thesis using that by blast
  next
    case False
    assume nt: "numberToken t" and
      r: "\<And>ip fp. literal ip \<Longrightarrow> literal fp \<Longrightarrow> t = ip @ CHR ''.'' # fp \<Longrightarrow> thesis"
    from nt False obtain fp where "literal (takeWhile isDigit t)"
      "dropWhile isDigit t = CHR ''.'' # fp" "literal fp"
      by (auto simp add: numberToken_def split: list.splits)
    moreover have "t = takeWhile isDigit t @ dropWhile isDigit t" by simp
    ultimately show ?thesis using r [of "takeWhile isDigit t" fp] by simp
  qed
  then show ?thesis
  proof cases
    case 1
    then show ?thesis by (simp add: Number_literal isNaN_def rnd_not_NaN)
  next
    case 2
    then show ?thesis
      unfolding 2(3) Number_def Let_def takeWhile_literal_dot [OF 2(1)]
        dropWhile_literal_dot [OF 2(1)] isNaN_def
      by (auto simp add: literal_def rnd_not_NaN)
  qed
qed

lemma Number_symbol:
  "t \<in> {''('', '')'', ''+'', ''-'', ''*'', ''/''} \<Longrightarrow> isNaN (Number t)"
  by (auto simp add: Number_def isNaN_def isDigit_def)

lemma token_is_number_iff:
  "t \<in> set (tokens s) \<Longrightarrow> (\<not> isNaN (Number t)) = numberToken t"
  using tokens_shape [of t s] Number_numberToken [of t] Number_symbol [of t] by blast

section \<open>Properties of the factorial\<close>

lemma factorial_negative: "flt n (Fin False 0) \<Longrightarrow> factorial n = Some NaN"
  by (simp add: factorial_def)

lemma fact_19: "fact 19 = (121645100408832000 :: rat)"
  by (simp add: fact_numeral)

lemma fact_20: "fact 20 = (2432902008176640000 :: rat)"
  by (simp add: fact_numeral)

lemma fact_21: "fact 21 = (51090942171709440000 :: rat)"
  by (simp add: fact_numeral)

lemma fact_22: "fact 22 = (1124000727777607680000 :: rat)"
  by (simp add: fact_numeral)

lemma fact_23: "fact 23 = (25852016738884976640000 :: rat)"
  by (simp add: fact_numeral)

lemma rnd_fact_19: "rnd False 121645100408832000 = Fin False 121645100408832000"
  by code_simp

lemma rnd_fact_20: "rnd False 2432902008176640000 = Fin False 2432902008176640000"
  by code_simp

lemma rnd_fact_21: "rnd False 51090942171709440000 = Fin False 51090942171709440000"
  by code_simp

lemma rnd_fact_22: "rnd False 1124000727777607680000 = Fin False 1124000727777607680000"
  by code_simp

lemma rnd_fact_23: "rnd False 25852016738884976640000 = Fin False 25852016738884978212864"
  by code_simp

lemma rnd_fact:
  assumes "k \<le> 22"
  shows "rnd False (fact k) = Fin False (fact k)"
proof (cases "k \<le> 18")
  case True
  then have "(fact k :: int) \<le> fact 18" by (rule fact_mono)
  also have "(fact 18 :: int) \<le> 2 ^ 53" by (simp add: fact_numeral)
  finally have "(fact k :: int) \<le> 2 ^ 53" .
  from rnd_of_int [OF _ this] show ?thesis by simp
next
  case False
  with assms have "k = 19 \<or> k = 20 \<or> k = 21 \<or> k = 22" by arith
  then show ?thesis
    using rnd_fact_19 rnd_fact_20 rnd_fact_21 rnd_fact_22
    by (auto simp only: fact_19 fact_20 fact_21 fact_22)
qed

lemma fle_of_nat: "fle (Fin False (of_nat i)) (Fin False (of_nat k)) = (i \<le> k)"
  by (simp add: signed_def)

lemma fadd_one: "j < 2 ^ 53 \<Longrightarrow> fadd (Fin False (of_nat j)) (Fin False 1) = Fin False (of_nat (Suc j))"
  using fadd_of_int [of "int j" 1] by (simp add: add.commute)

lemma fmul_fact:
  assumes "0 < j" and "j \<le> 22"
  shows "fmul (Fin False (fact (j - 1))) (Fin False (of_nat j)) = Fin False (fact j)"
proof -
  have "(fact (j - 1) :: rat) * of_nat j = fact j"
    using assms(1) by (simp add: fact_reduce)
  then show ?thesis using rnd_fact [OF assms(2)] by simp
qed

lemma factorial_loop_step:
  assumes "0 < j" and "j \<le> 22" and "j \<le> k"
  shows "factorial_loop (Fin False (of_nat k)) (Fin False (fact (j - 1))) (Fin False (of_nat j)) =
         factorial_loop (Fin False (of_nat k)) (Fin False (fact j)) (Fin False (of_nat (Suc j)))"
proof -
  have "j < 2 ^ 53" using assms(2) by simp
  then show ?thesis
    by (subst factorial_loop.simps)
      (simp only: fle_of_nat assms(3) if_True fmul_fact [OF assms(1,2)] fadd_one)
qed

lemma factorial_loop_run:
  assumes "2 \<le> i" and "i \<le> j" and "j \<le> Suc k" and "j \<le> 23"
  shows "factorial_loop (Fin False (of_nat k)) (Fin False (fact (i - 1))) (Fin False (of_nat i)) =
         factorial_loop (Fin False (of_nat k)) (Fin False (fact (j - 1))) (Fin False (of_nat j))"
  using assms(2-4)
proof (induction j rule: dec_induct)
  case base
  show ?case by simp
next
  case (step n)
  from step.prems assms(1) step.hyps(1) have "0 < n" "n \<le> 22" "n \<le> k" "n \<le> Suc k" "n \<le> 23"
    by simp_all
  with step.IH factorial_loop_step [of n k] show ?case by simp
qed

lemma factorial_loop_exit:
  "k < j \<Longrightarrow> factorial_loop (Fin False (of_nat k)) r (Fin False (of_nat j)) = Some r"
  by (subst factorial_loop.simps) (simp only: fle_of_nat, simp)

lemma factorial_nonneg:
  "factorial (Fin False (of_nat k)) = factorial_loop (Fin False (of_nat k)) (Fin False 1) (Fin False 2)"
  by (simp add: factorial_def signed_def)

text \<open>
  C7, as the code has it. A negative argument (an infinite one too) gives NaN. For an
  integer \<open>k\<close> from 0 to 22 the call returns, and returns \<open>k!\<close> exactly, so 1 for 0 and
  for 1: up to there every product of the loop is a binary64 value.
\<close>

theorem factorial_exact_to_22:
  "(flt n (Fin False 0) \<longrightarrow> factorial n = Some NaN) \<and>
   (k \<le> 22 \<longrightarrow> factorial (Fin False (of_nat k)) = Some (Fin False (fact k)))"
proof (intro conjI impI)
  assume "flt n (Fin False 0)"
  then show "factorial n = Some NaN" by (rule factorial_negative)
next
  assume k: "k \<le> 22"
  show "factorial (Fin False (of_nat k)) = Some (Fin False (fact k))"
  proof (cases "k < 2")
    case True
    then have "fact k = (1::rat)" by (cases k) auto
    moreover have "factorial_loop (Fin False (of_nat k)) (Fin False 1) (Fin False (of_nat 2)) =
        Some (Fin False 1)"
      using True by (intro factorial_loop_exit) simp
    ultimately show ?thesis by (simp add: factorial_nonneg)
  next
    case False
    then have "2 \<le> Suc k" "Suc k \<le> 23" using k by simp_all
    from factorial_loop_run [OF order_refl this(1) order_refl this(2)]
    have "factorial_loop (Fin False (of_nat k)) (Fin False (fact (2 - 1))) (Fin False (of_nat 2)) =
          factorial_loop (Fin False (of_nat k)) (Fin False (fact k)) (Fin False (of_nat (Suc k)))"
      by simp
    also have "\<dots> = Some (Fin False (fact k))"
      by (intro factorial_loop_exit) simp
    finally show ?thesis by (simp add: factorial_nonneg)
  qed
qed

theorem factorial_exact_to_22_witness:
  "flt (Fin True 3) (Fin False 0) \<and> factorial (Fin True 3) = Some NaN \<and>
   flt (Infinity True) (Fin False 0) \<and> factorial (Infinity True) = Some NaN \<and>
   (5::nat) \<le> 22 \<and> factorial (Fin False 5) = Some (Fin False 120) \<and>
   factorial (Fin False 0) = Some (Fin False 1) \<and> factorial (Fin False 1) = Some (Fin False 1)"
proof -
  have a: "flt (Fin True 3) (Fin False 0)" by (simp add: signed_def)
  have b: "flt (Infinity True) (Fin False 0)" by simp
  have c: "(5::nat) \<le> 22" "(0::nat) \<le> 22" "(1::nat) \<le> 22" by simp_all
  from factorial_exact_to_22 [of "Fin True 3" 5] factorial_exact_to_22 [of "Infinity True" 0]
    factorial_exact_to_22 [of NaN 1] a b c
  show ?thesis by (simp add: fact_numeral)
qed

text \<open>
  The argument 23: \<open>23!\<close> is not a binary64 value, and the call returns the value next
  to it.
\<close>

lemma factorial_23: "factorial (Fin False 23) = Some (Fin False 25852016738884978212864)"
proof -
  have small: "(23::nat) < 2 ^ 53" by simp
  have "factorial_loop (Fin False (of_nat 23)) (Fin False (fact (2 - 1))) (Fin False (of_nat 2)) =
        factorial_loop (Fin False (of_nat 23)) (Fin False (fact (23 - 1))) (Fin False (of_nat 23))"
    by (rule factorial_loop_run) simp_all
  also have "\<dots> = factorial_loop (Fin False (of_nat 23))
       (fmul (Fin False (fact (23 - 1))) (Fin False (of_nat 23))) (Fin False (of_nat (Suc 23)))"
    by (subst factorial_loop.simps) (simp only: fle_of_nat order_refl if_True fadd_one [OF small])
  also have "fmul (Fin False (fact (23 - 1))) (Fin False (of_nat 23)) =
      Fin False 25852016738884978212864"
    using rnd_fact_23 by (simp add: fact_22)
  also have "factorial_loop (Fin False (of_nat 23)) (Fin False 25852016738884978212864)
      (Fin False (of_nat (Suc 23))) = Some (Fin False 25852016738884978212864)"
    by (rule factorial_loop_exit) simp
  finally show ?thesis using factorial_nonneg [of 23] by simp
qed

theorem factorial_23_counterexample:
  "factorial (Fin False 23) = Some (Fin False 25852016738884978212864) \<and>
   fact 23 = (25852016738884976640000 :: rat)"
  using factorial_23 fact_23 by simp

section \<open>Properties of the executions\<close>

lemma step_deterministic: "step c c1 \<Longrightarrow> step c c2 \<Longrightarrow> c1 = c2"
proof (cases c)
  case (Start expr)
  assume "step c c1" "step c c2"
  with Start show ?thesis by (auto elim!: step_StartE)
next
  case (Scan ts stack out)
  assume "step c c1" "step c c2"
  with Scan show ?thesis by (auto elim!: step_ScanE)
next
  case (PopOps t ts stack out)
  assume "step c c1" "step c c2"
  with PopOps show ?thesis by (auto elim!: step_PopOpsE)
next
  case (PopParen ts stack out)
  assume "step c c1" "step c c2"
  with PopParen show ?thesis by (auto elim!: step_PopParenE)
next
  case (Drain stack out)
  assume "step c c1" "step c c2"
  with Drain show ?thesis by (auto elim!: step_DrainE)
next
  case (Eval its calc trace)
  assume "step c c1" "step c c2"
  with Eval show ?thesis by (auto elim!: step_EvalE)
next
  case (Done r)
  assume "step c c1"
  with Done show ?thesis by (auto elim!: step_DoneE)
qed

lemma Done_final: "step\<^sup>*\<^sup>* (Done r) c \<Longrightarrow> c = Done r"
  by (induction rule: rtranclp_induct) (auto elim: step_DoneE)

lemma runs_agree:
  "step\<^sup>*\<^sup>* c (Done r1) \<Longrightarrow> step\<^sup>*\<^sup>* c (Done r2) \<Longrightarrow> r1 = r2"
proof (induction rule: converse_rtranclp_induct)
  case base
  from Done_final [OF base] show ?case by simp
next
  case (step c c')
  from step.prems show ?case
  proof (cases rule: converse_rtranclpE)
    case base
    with step.hyps(1) show ?thesis by (auto elim: step_DoneE)
  next
    case (step c'')
    with step_deterministic [OF \<open>step c c'\<close>, of c''] step.IH show ?thesis by simp
  qed
qed

lemma run_popOps:
  "step\<^sup>*\<^sup>* (PopOps t ts stack out)
     (Scan ts (fst (popOps t stack out) @ [t]) (snd (popOps t stack out)))"
proof (induction t stack out rule: popOps.induct)
  case (1 t stack out)
  show ?case
  proof (cases "stack \<noteq> [] \<and> js_ge (ops (last stack)) (ops t)")
    case True
    then have "step (PopOps t ts stack out) (PopOps t ts (butlast stack) (out @ [S (last stack)]))"
      by (simp add: pop_op)
    also note "1.IH" [OF True]
    finally have run: "step\<^sup>*\<^sup>* (PopOps t ts stack out)
        (Scan ts (fst (popOps t (butlast stack) (out @ [S (last stack)])) @ [t])
          (snd (popOps t (butlast stack) (out @ [S (last stack)]))))" .
    have "popOps t stack out = popOps t (butlast stack) (out @ [S (last stack)])"
      using True by (subst popOps.simps) simp
    with run show ?thesis by simp
  next
    case False
    then have "step (PopOps t ts stack out) (Scan ts (stack @ [t]) out)"
      by (rule push_op)
    moreover have "popOps t stack out = (stack, out)"
      using False by (subst popOps.simps) auto
    ultimately show ?thesis by simp
  qed
qed

lemma run_popToParen:
  "step\<^sup>*\<^sup>* (PopParen ts stack out)
     (Scan ts (butlast (fst (popToParen stack out))) (snd (popToParen stack out)))"
proof (induction stack out rule: popToParen.induct)
  case (1 stack out)
  show ?case
  proof (cases "stack \<noteq> [] \<and> last stack \<noteq> ''(''")
    case True
    then have "step (PopParen ts stack out) (PopParen ts (butlast stack) (out @ [S (last stack)]))"
      by (simp add: pop_paren)
    also note "1.IH" [OF True]
    finally have run: "step\<^sup>*\<^sup>* (PopParen ts stack out)
        (Scan ts (butlast (fst (popToParen (butlast stack) (out @ [S (last stack)]))))
          (snd (popToParen (butlast stack) (out @ [S (last stack)]))))" .
    have "popToParen stack out = popToParen (butlast stack) (out @ [S (last stack)])"
      using True by (subst popToParen.simps) simp
    with run show ?thesis by simp
  next
    case False
    then have "step (PopParen ts stack out) (Scan ts (butlast stack) out)"
      by (rule drop_paren)
    moreover have "popToParen stack out = (stack, out)"
      using False by (subst popToParen.simps) auto
    ultimately show ?thesis by simp
  qed
qed

lemma run_token:
  "step\<^sup>*\<^sup>* (Scan (t # ts) stack out)
     (Scan ts (fst (shunt (stack, out) t)) (snd (shunt (stack, out) t)))"
proof -
  consider "\<not> isNaN (Number t)"
    | "isNaN (Number t)" "ops t \<noteq> None"
    | "isNaN (Number t)" "ops t = None" "t = ''(''"
    | "isNaN (Number t)" "ops t = None" "t \<noteq> ''(''" "t = '')''"
    | "isNaN (Number t)" "ops t = None" "t \<noteq> ''(''" "t \<noteq> '')''"
    by blast
  then show ?thesis
  proof cases
    case 1
    then show ?thesis using number [OF 1, of ts stack out] by (simp add: shunt_def)
  next
    case 2
    from operator [OF 2, of ts stack out] run_popOps [of t ts stack out]
    have "step\<^sup>*\<^sup>* (Scan (t # ts) stack out)
        (Scan ts (fst (popOps t stack out) @ [t]) (snd (popOps t stack out)))"
      by (rule converse_rtranclp_into_rtranclp)
    then show ?thesis using 2 by (cases "popOps t stack out") (simp add: shunt_def)
  next
    case 3
    then show ?thesis using left_paren [OF 3, of ts stack out] by (simp add: shunt_def)
  next
    case 4
    from right_paren [OF 4, of ts stack out] run_popToParen [of ts stack out]
    have "step\<^sup>*\<^sup>* (Scan (t # ts) stack out)
        (Scan ts (butlast (fst (popToParen stack out))) (snd (popToParen stack out)))"
      by (rule converse_rtranclp_into_rtranclp)
    then show ?thesis using 4 by (cases "popToParen stack out") (simp add: shunt_def)
  next
    case 5
    then show ?thesis using no_branch [OF 5, of ts stack out] by (simp add: shunt_def)
  qed
qed

lemma run_scan:
  "step\<^sup>*\<^sup>* (Scan ts stack out)
     (Drain (fst (foldl shunt (stack, out) ts)) (snd (foldl shunt (stack, out) ts)))"
proof (induction ts arbitrary: stack out)
  case Nil
  show ?case using scanned [of stack out] by simp
next
  case (Cons t ts)
  from run_token [of t ts stack out]
    Cons [of "fst (shunt (stack, out) t)" "snd (shunt (stack, out) t)"]
  show ?case by simp
qed

lemma run_drain: "step\<^sup>*\<^sup>* (Drain stack out) (Eval (drain stack out) [] [])"
proof (induction stack out rule: drain.induct)
  case (1 stack out)
  show ?case
  proof (cases "stack \<noteq> []")
    case True
    then have "step (Drain stack out) (Drain (butlast stack) (out @ [S (last stack)]))"
      by (rule drain_pop)
    also note "1.IH" [OF True]
    finally have run: "step\<^sup>*\<^sup>* (Drain stack out)
        (Eval (drain (butlast stack) (out @ [S (last stack)])) [] [])" .
    have "drain stack out = drain (butlast stack) (out @ [S (last stack)])"
      using True by (subst drain.simps) simp
    with run show ?thesis by simp
  next
    case False
    then have "drain stack out = out" by (subst drain.simps) simp
    with False show ?thesis using drained [of out] by simp
  qed
qed

lemma run_item:
  "step (Eval (it # its) calc trace)
     (Eval its (fst (applyItem (calc, trace) it)) (snd (applyItem (calc, trace) it)))"
proof (cases it)
  case (N x)
  then show ?thesis using push_number [of x its calc trace] by (simp add: applyItem_def)
next
  case (S t)
  obtain b calc1 where p1: "pop calc = (b, calc1)" by (cases "pop calc")
  obtain a calc2 where p2: "pop calc1 = (a, calc2)" by (cases "pop calc1")
  from apply_op [OF p1 p2, of t its trace] S p1 p2 show ?thesis
    by (simp add: applyItem_def)
qed

lemma run_eval:
  "step\<^sup>*\<^sup>* (Eval its calc trace)
     (Done (Inr \<lparr>result = first (fst (foldl applyItem (calc, trace) its)),
                 steps = snd (foldl applyItem (calc, trace) its)\<rparr>))"
proof (induction its arbitrary: calc trace)
  case Nil
  show ?case using return [of calc trace] by simp
next
  case (Cons it its)
  from run_item [of it its calc trace]
    Cons [of "fst (applyItem (calc, trace) it)" "snd (applyItem (calc, trace) it)"]
  show ?case by (simp add: converse_rtranclp_into_rtranclp)
qed

lemma run_function: "step\<^sup>*\<^sup>* (Start expr) (Done (calculateExpressionWithSteps expr))"
proof -
  consider "\<not> test expr" | "test expr" "tokens expr = []" | "test expr" "tokens expr \<noteq> []"
    by blast
  then show ?thesis
  proof cases
    case 1
    then show ?thesis using invalid [OF 1] by (simp add: calculateExpressionWithSteps_def)
  next
    case 2
    then show ?thesis using no_tokens [OF 2] by (simp add: calculateExpressionWithSteps_def)
  next
    case 3
    note scan [OF 3]
    also note run_scan [of "tokens expr" "[]" "[]"]
    also note run_drain
    also note run_eval
    finally show ?thesis
      using 3 by (cases "foldl shunt ([], []) (tokens expr)") (simp add: evaluate_Inr toPostfix_def)
  qed
qed

lemma run_iff:
  "step\<^sup>*\<^sup>* (Start expr) (Done r) = (r = calculateExpressionWithSteps expr)"
  using run_function runs_agree by blast

text \<open>
  C8. Every call on an input runs to completion, and any two complete executions on the
  same input end with the same outcome: the same value and the same trace, or the same
  error. No state outlives a call, so a second evaluation starts as the first did.
\<close>

theorem evaluation_deterministic:
  "(\<exists>r. step\<^sup>*\<^sup>* (Start expr) (Done r)) \<and>
   (\<forall>r1 r2. step\<^sup>*\<^sup>* (Start expr) (Done r1) \<longrightarrow> step\<^sup>*\<^sup>* (Start expr) (Done r2) \<longrightarrow>
      r1 = r2)"
  using run_function runs_agree by blast

theorem evaluation_deterministic_witness:
  "step\<^sup>*\<^sup>* (Start ''7-2'')
     (Done (Inr \<lparr>result = Num (Fin False 5), steps = [''7 - 2 = 5'']\<rparr>)) \<and>
   (\<exists>r. step\<^sup>*\<^sup>* (Start ''7-2'') (Done r) \<and>
      r = Inr \<lparr>result = Num (Fin False 5), steps = [''7 - 2 = 5'']\<rparr>)"
proof -
  have v: "calculateExpressionWithSteps ''7-2'' =
      Inr \<lparr>result = Num (Fin False 5), steps = [''7 - 2 = 5'']\<rparr>"
    by code_simp
  have run: "step\<^sup>*\<^sup>* (Start ''7-2'')
      (Done (Inr \<lparr>result = Num (Fin False 5), steps = [''7 - 2 = 5'']\<rparr>))"
    using run_function [of "''7-2''"] unfolding v .
  from evaluation_deterministic [of "''7-2''"] obtain r
    where r: "step\<^sup>*\<^sup>* (Start ''7-2'') (Done r)"
      and u: "\<And>r1 r2. step\<^sup>*\<^sup>* (Start ''7-2'') (Done r1) \<Longrightarrow>
        step\<^sup>*\<^sup>* (Start ''7-2'') (Done r2) \<Longrightarrow> r1 = r2"
    by blast
  from u [OF r run] r run show ?thesis by blast
qed

end
